theory Spec2Isabelle
  imports Main "HOL-Library.Multiset" "HOL-Library.Char_ord"
begin

section \<open>Prolongation of infinitesimal generators: the notebook \<open>Prolong.ipynb\<close>\<close>

text \<open>
  The notebook is Python 2 (\<open>raw_input\<close>, \<open>filter\<close> returning a list). It defines
  \<open>jet\<close>, \<open>njet\<close>, \<open>fulljet\<close>, \<open>uJalpha\<close>, \<open>divUJi\<close>, \<open>totDiv\<close> and
  \<open>TotDiv\<close> cell by cell, and once more in a last cell that collects the whole program
  and adds \<open>diffOrd\<close>. The two generations of \<open>jet\<close>, \<open>njet\<close>, \<open>fulljet\<close>,
  \<open>uJalpha\<close>, \<open>divUJi\<close>, \<open>phiAlpha\<close> and \<open>Prolong\<close> are the same text. Two
  functions differ:
  \<^item> \<open>totDiv\<close> of the last cell calls \<open>fullJet\<close>, a name that nothing binds (the
    function is \<open>fulljet\<close>), where the cell that introduces \<open>totDiv\<close> calls
    \<open>fulljet\<close>;
  \<^item> \<open>TotDiv\<close> of the last cell takes the order ceiling \<open>n\<close> as a parameter, where the
    cell that introduces it takes four arguments and passes \<open>len(J)+1\<close>.
  Both generations are embedded, under different names.
\<close>

subsection \<open>Exceptions and Python indexing\<close>

datatype error = IndexError | TypeError | NameError

definition ebind :: "error + 'a \<Rightarrow> ('a \<Rightarrow> error + 'b) \<Rightarrow> error + 'b" where
  "ebind m f = (case m of Inl e \<Rightarrow> Inl e | Inr x \<Rightarrow> f x)"

text \<open>\<open>xs[i]\<close>: a negative index counts from the end, anything out of range raises.\<close>

definition py_index :: "'a list \<Rightarrow> int \<Rightarrow> error + 'a" where
  "py_index xs i =
     (if 0 \<le> i \<and> i < int (length xs) then Inr (xs ! nat i)
      else if i < 0 \<and> - int (length xs) \<le> i then Inr (xs ! nat (int (length xs) + i))
      else Inl IndexError)"

subsection \<open>The expression engine\<close>

text \<open>
  The notebook delegates expressions to sympy (\<open>diff\<close>, \<open>+\<close>, \<open>*\<close>, \<open>-\<close>,
  \<open>var\<close>), which is not part of the repository. The engine is modelled by polynomial
  expressions over named symbols with integer coefficients. Every label is taken to name
  a symbol: the texts that sympy reads as something else (\<open>E\<close>, \<open>I\<close>, a text with a
  comma or a colon) and the global name that \<open>var\<close> binds for each symbol it makes are
  outside the model. An expression given as text, such as \<open>'x*u*uxy'\<close>, is taken as
  parsed. sympy keeps expressions in a normal form of its own; the claims speak of
  expressions up to algebraic equality only, which is equality of the values under every
  assignment of integers to the symbols.
\<close>

datatype expr = Num int | Sym string | Add expr expr | Mul expr expr

fun eval :: "(string \<Rightarrow> int) \<Rightarrow> expr \<Rightarrow> int" where
  "eval env (Num c) = c"
| "eval env (Sym s) = env s"
| "eval env (Add a b) = eval env a + eval env b"
| "eval env (Mul a b) = eval env a * eval env b"

definition alg_eq :: "expr \<Rightarrow> expr \<Rightarrow> bool" where
  "alg_eq a b = (\<forall>env. eval env a = eval env b)"

text \<open>\<open>diff(P, s)\<close>: the partial derivative with respect to the symbol named \<open>s\<close>.\<close>

fun diff :: "expr \<Rightarrow> string \<Rightarrow> expr" where
  "diff (Num c) s = Num 0"
| "diff (Sym t) s = (if t = s then Num 1 else Num 0)"
| "diff (Add a b) s = Add (diff a s) (diff b s)"
| "diff (Mul a b) s = Add (Mul (diff a s) b) (Mul a (diff b s))"

definition Sub :: "expr \<Rightarrow> expr \<Rightarrow> expr" where
  "Sub a b = Add a (Mul (Num (- 1)) b)"

text \<open>
  The values \<open>uJalpha\<close> receives and passes on: a label (a Python string), a symbol made
  by \<open>var\<close>, or \<open>None\<close>. \<open>str\<close> of a symbol is its name and \<open>str(None)\<close> is the text
  \<open>None\<close>.
\<close>

datatype pyval = PStr string | PSym string | PNone

fun py_str :: "pyval \<Rightarrow> string" where
  "py_str (PStr s) = s"
| "py_str (PSym s) = s"
| "py_str PNone = ''None''"

text \<open>
  What \<open>uJalpha\<close> returns is the symbol of a name or \<open>None\<close>, an optional name here;
  \<open>as_value\<close> is that result where it is handed to \<open>uJalpha\<close> again. \<open>e * r\<close> for
  such a result \<open>r\<close>: multiplying by \<open>None\<close> raises.
\<close>

fun as_value :: "string option \<Rightarrow> pyval" where
  "as_value None = PNone"
| "as_value (Some s) = PSym s"

fun py_mul :: "expr \<Rightarrow> string option \<Rightarrow> error + expr" where
  "py_mul e (Some t) = Inr (Mul e (Sym t))"
| "py_mul e None = Inl TypeError"

subsection \<open>Jets\<close>

text \<open>\<open>sorted(s)\<close> on a string: its characters in ascending order.\<close>

definition py_sorted :: "string \<Rightarrow> string" where
  "py_sorted s = sort s"

text \<open>
  \<^verbatim>\<open>
  def jet(X,U):
      J = []
      for i in range(len(U)):
          for j in range(len(X)):
              J.append(U[i]+X[j])
      return J
  \<close>
\<close>

definition jet :: "string list \<Rightarrow> string list \<Rightarrow> string list" where
  "jet X U = concat (map (\<lambda>u. map (\<lambda>x. u @ x) X) U)"

text \<open>
  \<^verbatim>\<open>
  def njet(X,U,n):
      J = U
      for i in range(n):
          J = jet(X,J)
      for i in range(len(J)):
          k = i+1
          for j in range(i+1,len(J)-1):
              if sorted(J[i]) == sorted(J[k]):
                  J.remove(J[k])
                  k = k-1
              k += 1
          if i >= len(J)-2:
              break
      return J
  \<close>
  \<open>njet_inner J i k c\<close> is the inner loop with \<open>c\<close> iterations left: its range is fixed
  when the loop starts, \<open>J.remove(J[k])\<close> deletes the first element equal to \<open>J[k]\<close>.
  \<open>njet_outer J i c\<close> is the outer loop at index \<open>i\<close> with \<open>c\<close> iterations left: its range
  is fixed from the length of \<open>J\<close> before the first deletion.
\<close>

fun njet_inner :: "string list \<Rightarrow> nat \<Rightarrow> nat \<Rightarrow> nat \<Rightarrow> error + string list" where
  "njet_inner J i k 0 = Inr J"
| "njet_inner J i k (Suc c) =
     (if i < length J \<and> k < length J then
        (if py_sorted (J ! i) = py_sorted (J ! k)
         then njet_inner (remove1 (J ! k) J) i k c
         else njet_inner J i (k + 1) c)
      else Inl IndexError)"

fun njet_outer :: "string list \<Rightarrow> nat \<Rightarrow> nat \<Rightarrow> error + string list" where
  "njet_outer J i 0 = Inr J"
| "njet_outer J i (Suc c) =
     (case njet_inner J i (i + 1) (length J - 1 - (i + 1)) of
        Inl e \<Rightarrow> Inl e
      | Inr J' \<Rightarrow>
          if int i \<ge> int (length J') - 2 then Inr J' else njet_outer J' (i + 1) c)"

definition njet :: "string list \<Rightarrow> string list \<Rightarrow> int \<Rightarrow> error + string list" where
  "njet X U n = (let J = (jet X ^^ nat n) U in njet_outer J 0 (length J))"

text \<open>
  When \<open>range(n)\<close> is empty, \<open>J\<close> is still the list object \<open>U\<close> and the deletions are made
  in the caller's \<open>U\<close>. \<open>njet_U U n J\<close> is the content of \<open>U\<close> after a call
  \<open>njet(X,U,n)\<close> that returned \<open>J\<close>.
\<close>

definition njet_U :: "string list \<Rightarrow> int \<Rightarrow> string list \<Rightarrow> string list" where
  "njet_U U n J = (if nat n = 0 then J else U)"

text \<open>
  \<^verbatim>\<open>
  def fulljet(X,U,n):
      J = X+U
      for i in range(n):
          J = J+njet(X,U,i+1)
      return J
  \<close>
  Every call of \<open>njet\<close> here has a positive order, so \<open>U\<close> is not touched.
\<close>

fun fulljet_loop :: "string list \<Rightarrow> string list \<Rightarrow> nat list \<Rightarrow> string list \<Rightarrow> error + string list" where
  "fulljet_loop X U [] J = Inr J"
| "fulljet_loop X U (i # is) J =
     ebind (njet X U (int i + 1)) (\<lambda>N. fulljet_loop X U is (J @ N))"

definition fulljet :: "string list \<Rightarrow> string list \<Rightarrow> int \<Rightarrow> error + string list" where
  "fulljet X U n = fulljet_loop X U [0 ..< nat n] (X @ U)"

subsection \<open>The derivative-symbol resolver\<close>

text \<open>
  \<^verbatim>\<open>
  def uJalpha(u,x,X,U):
      J = njet(X,U,len(str(u)))
      for i in range(len(J)):
          if sorted(str(u)+str(x)) == sorted(J[i]):
              return var(J[i])
              break
  \<close>
  The result is the symbol of the first match, or \<open>None\<close> when the loop ends without a
  match (the function then falls off its end). The second component is the content of
  \<open>U\<close> after the call.
\<close>

definition uJalpha :: "pyval \<Rightarrow> string \<Rightarrow> string list \<Rightarrow> string list \<Rightarrow> error + (string option \<times> string list)" where
  "uJalpha u x X U =
     ebind (njet X U (int (length (py_str u)))) (\<lambda>J.
       Inr (find (\<lambda>s. py_sorted (py_str u @ x) = py_sorted s) J,
            njet_U U (int (length (py_str u))) J))"

text \<open>
  \<^verbatim>\<open>
  def divUJi(X,U,u,J,i):
      f = u
      for j in range(len(J)):
          f = uJalpha(f,X[J[j]],X,U)
      f = uJalpha(f,X[i],X,U)
      return f
  \<close>
\<close>

fun divUJi_loop :: "string list \<Rightarrow> string list \<Rightarrow> pyval \<Rightarrow> int list \<Rightarrow> error + (pyval \<times> string list)" where
  "divUJi_loop X U f [] = Inr (f, U)"
| "divUJi_loop X U f (j # J) =
     ebind (py_index X j) (\<lambda>x.
     ebind (uJalpha f x X U) (\<lambda>(r, U').
       divUJi_loop X U' (as_value r) J))"

definition divUJi :: "string list \<Rightarrow> string list \<Rightarrow> pyval \<Rightarrow> int list \<Rightarrow> int \<Rightarrow> error + (string option \<times> string list)" where
  "divUJi X U u J i =
     ebind (divUJi_loop X U u J) (\<lambda>(f, U').
     ebind (py_index X i) (\<lambda>x.
       uJalpha f x X U'))"

subsection \<open>Total derivatives\<close>

text \<open>
  The cell that introduces \<open>totDiv\<close>:
  \<^verbatim>\<open>
  def totDiv(X,U,P,i,n):
      expr = diff(P,X[i])
      J = filter(lambda v: v not in X, fulljet(X,U,n))
      for j in range(len(J)):
          expr = expr + diff(P,J[j])*uJalpha(J[j],X[i],X,U)
      return expr
  \<close>
\<close>

fun totDiv_loop :: "string list \<Rightarrow> string list \<Rightarrow> expr \<Rightarrow> string \<Rightarrow> string list \<Rightarrow> expr \<Rightarrow> error + (expr \<times> string list)" where
  "totDiv_loop X U P x [] expr = Inr (expr, U)"
| "totDiv_loop X U P x (s # J) expr =
     ebind (uJalpha (PStr s) x X U) (\<lambda>(r, U').
     ebind (py_mul (diff P s) r) (\<lambda>t.
       totDiv_loop X U' P x J (Add expr t)))"

definition totDiv :: "string list \<Rightarrow> string list \<Rightarrow> expr \<Rightarrow> int \<Rightarrow> int \<Rightarrow> error + (expr \<times> string list)" where
  "totDiv X U P i n =
     ebind (py_index X i) (\<lambda>x.
     ebind (fulljet X U n) (\<lambda>F.
       totDiv_loop X U P x (filter (\<lambda>v. v \<notin> set X) F) (diff P x)))"

text \<open>
  The last cell's \<open>totDiv\<close> is the same text with \<open>fullJet(X,U,n)\<close> for
  \<open>fulljet(X,U,n)\<close>. No cell binds \<open>fullJet\<close>: once \<open>diff(P,X[i])\<close> is computed, the
  lookup of that name raises.
\<close>

definition totDiv_program :: "string list \<Rightarrow> string list \<Rightarrow> expr \<Rightarrow> int \<Rightarrow> int \<Rightarrow> error + (expr \<times> string list)" where
  "totDiv_program X U P i n = ebind (py_index X i) (\<lambda>x. Inl NameError)"

text \<open>
  Python looks a global name up when the call is made, so which body answers to
  \<open>totDiv\<close> inside \<open>TotDiv\<close>, \<open>phiAlpha\<close> and \<open>Prolong\<close> depends on the cell
  that ran last. These functions take the binding of \<open>totDiv\<close> as their first argument
  \<open>td\<close>. In the order of the notebook the cell that introduces \<open>TotDiv\<close> runs against
  \<open>totDiv\<close>; \<open>phiAlpha\<close> and \<open>Prolong\<close> need \<open>diffOrd\<close> and the five-argument
  \<open>TotDiv\<close>, which only the last cell defines, and so run against \<open>totDiv_program\<close>.

  The cell that introduces \<open>TotDiv\<close>:
  \<^verbatim>\<open>
  def TotDiv(X,U,P,J):
      expr = totDiv(X,U,P,J[0],len(J)+1)
      for i in range(1,len(J)):
          expr = totDiv(X,U,expr,J[i],len(J)+1)
      return expr
  \<close>
  and the last cell's:
  \<^verbatim>\<open>
  def TotDiv(X,U,P,n,J):
      expr = totDiv(X,U,P,J[0],n)
      for i in range(1,len(J)):
          expr = totDiv(X,U,expr,J[i],n)
      return expr
  \<close>
  \<open>TotDiv_loop\<close> is the loop of both at index \<open>i\<close> with \<open>c\<close> iterations left.
\<close>

type_synonym totDiv_binding =
  "string list \<Rightarrow> string list \<Rightarrow> expr \<Rightarrow> int \<Rightarrow> int \<Rightarrow> error + (expr \<times> string list)"

fun TotDiv_loop :: "totDiv_binding \<Rightarrow> string list \<Rightarrow> string list \<Rightarrow> int list \<Rightarrow> int \<Rightarrow> nat \<Rightarrow> nat \<Rightarrow> expr \<Rightarrow> error + (expr \<times> string list)" where
  "TotDiv_loop td X U J n i 0 expr = Inr (expr, U)"
| "TotDiv_loop td X U J n i (Suc c) expr =
     ebind (py_index J (int i)) (\<lambda>j.
     ebind (td X U expr j n) (\<lambda>(expr', U').
       TotDiv_loop td X U' J n (i + 1) c expr'))"

definition TotDiv :: "totDiv_binding \<Rightarrow> string list \<Rightarrow> string list \<Rightarrow> expr \<Rightarrow> int \<Rightarrow> int list \<Rightarrow> error + (expr \<times> string list)" where
  "TotDiv td X U P n J =
     ebind (py_index J 0) (\<lambda>j.
     ebind (td X U P j n) (\<lambda>(expr, U').
       TotDiv_loop td X U' J n 1 (length J - 1) expr))"

definition TotDiv_cell :: "totDiv_binding \<Rightarrow> string list \<Rightarrow> string list \<Rightarrow> expr \<Rightarrow> int list \<Rightarrow> error + (expr \<times> string list)" where
  "TotDiv_cell td X U P J =
     ebind (py_index J 0) (\<lambda>j.
     ebind (td X U P j (int (length J) + 1)) (\<lambda>(expr, U').
       TotDiv_loop td X U' J (int (length J) + 1) 1 (length J - 1) expr))"

subsection \<open>The prolongation\<close>

text \<open>
  \<^verbatim>\<open>
  def phiAlpha(X,U,v,J,q):
      phi = v[len(X):]
      xi = v[:len(X)]
      a = 0
      b = 0
      for i in range(len(X)):
          a = a+xi[i]*uJalpha(U[q],X[i],X,U)
      for i in range(len(X)):
              b = b+xi[i]*divUJi(X,U,U[q],J,i)
      c = TotDiv(X,U,phi[q]-a,len(J),J)+b
      return c
  \<close>
\<close>

fun phiAlpha_a :: "string list \<Rightarrow> string list \<Rightarrow> expr list \<Rightarrow> int \<Rightarrow> nat list \<Rightarrow> expr \<Rightarrow> error + (expr \<times> string list)" where
  "phiAlpha_a X U xi q [] a = Inr (a, U)"
| "phiAlpha_a X U xi q (i # is) a =
     ebind (py_index xi (int i)) (\<lambda>c.
     ebind (py_index U q) (\<lambda>u.
     ebind (py_index X (int i)) (\<lambda>x.
     ebind (uJalpha (PStr u) x X U) (\<lambda>(r, U').
     ebind (py_mul c r) (\<lambda>t.
       phiAlpha_a X U' xi q is (Add a t))))))"

fun phiAlpha_b :: "string list \<Rightarrow> string list \<Rightarrow> expr list \<Rightarrow> int list \<Rightarrow> int \<Rightarrow> nat list \<Rightarrow> expr \<Rightarrow> error + (expr \<times> string list)" where
  "phiAlpha_b X U xi J q [] b = Inr (b, U)"
| "phiAlpha_b X U xi J q (i # is) b =
     ebind (py_index xi (int i)) (\<lambda>c.
     ebind (py_index U q) (\<lambda>u.
     ebind (divUJi X U (PStr u) J (int i)) (\<lambda>(r, U').
     ebind (py_mul c r) (\<lambda>t.
       phiAlpha_b X U' xi J q is (Add b t)))))"

definition phiAlpha :: "totDiv_binding \<Rightarrow> string list \<Rightarrow> string list \<Rightarrow> expr list \<Rightarrow> int list \<Rightarrow> int \<Rightarrow> error + (expr \<times> string list)" where
  "phiAlpha td X U v J q =
     (let phi = drop (length X) v; xi = take (length X) v in
      ebind (phiAlpha_a X U xi q [0 ..< length X] (Num 0)) (\<lambda>(a, U1).
      ebind (phiAlpha_b X U1 xi J q [0 ..< length X] (Num 0)) (\<lambda>(b, U2).
      ebind (py_index phi q) (\<lambda>f.
      ebind (TotDiv td X U2 (Sub f a) (int (length J)) J) (\<lambda>(d, U3).
        Inr (Add d b, U3))))))"

text \<open>
  \<^verbatim>\<open>
  def diffOrd(p,n):
      b = []
      for i in range(1,n+1):
          b.append(list(combinations_with_replacement(range(p),i)))
      return b
  \<close>
  \<open>combinations_with_replacement\<close> of itertools yields the non-decreasing tuples in
  lexicographic order.
\<close>

fun combinations_with_replacement :: "int list \<Rightarrow> nat \<Rightarrow> int list list" where
  "combinations_with_replacement xs 0 = [[]]"
| "combinations_with_replacement [] (Suc k) = []"
| "combinations_with_replacement (x # xs) (Suc k) =
     map ((#) x) (combinations_with_replacement (x # xs) k) @
     combinations_with_replacement xs (Suc k)"

definition diffOrd :: "nat \<Rightarrow> int \<Rightarrow> int list list list" where
  "diffOrd p n =
     map (\<lambda>i. combinations_with_replacement (map int [0 ..< p]) (Suc i)) [0 ..< nat n]"

text \<open>
  \<^verbatim>\<open>
  def Prolong(X,U,v,n):
      a = v
      J = diffOrd(len(X),n)
      for i in range(n):
          for j in range(len(X)):
              for q in range(len(U)):
                  a.append(phiAlpha(X,U,v,J[i][j],q))
      return a
  \<close>
  \<open>a = v\<close> binds a second name to the caller's list, and \<open>append\<close> changes that list.
  The lists of expressions live in a store, \<open>v\<close> is a reference into it, and \<open>Prolong\<close>
  returns a reference together with the store and the content of \<open>U\<close> it leaves behind.
  \<open>X\<close>, \<open>U\<close> and \<open>v\<close> are taken to be three different list objects, and the
  components of \<open>v\<close> to be numbers or expressions of the engine. When an exception ends
  a call, the model reports the exception only, not the store it leaves.
\<close>

type_synonym ref = nat
type_synonym store = "ref \<Rightarrow> expr list"

fun Prolong_q :: "totDiv_binding \<Rightarrow> string list \<Rightarrow> ref \<Rightarrow> ref \<Rightarrow> int list list list \<Rightarrow> nat \<Rightarrow> nat \<Rightarrow> nat list \<Rightarrow> store \<times> string list \<Rightarrow> error + (store \<times> string list)" where
  "Prolong_q td X v a J i j [] (h, U) = Inr (h, U)"
| "Prolong_q td X v a J i j (q # qs) (h, U) =
     ebind (py_index J (int i)) (\<lambda>Ji.
     ebind (py_index Ji (int j)) (\<lambda>Jij.
     ebind (phiAlpha td X U (h v) Jij (int q)) (\<lambda>(c, U').
       Prolong_q td X v a J i j qs (h(a := h a @ [c]), U'))))"

fun Prolong_j :: "totDiv_binding \<Rightarrow> string list \<Rightarrow> ref \<Rightarrow> ref \<Rightarrow> int list list list \<Rightarrow> nat \<Rightarrow> nat list \<Rightarrow> store \<times> string list \<Rightarrow> error + (store \<times> string list)" where
  "Prolong_j td X v a J i [] (h, U) = Inr (h, U)"
| "Prolong_j td X v a J i (j # js) (h, U) =
     ebind (Prolong_q td X v a J i j [0 ..< length U] (h, U)) (\<lambda>s.
       Prolong_j td X v a J i js s)"

fun Prolong_i :: "totDiv_binding \<Rightarrow> string list \<Rightarrow> ref \<Rightarrow> ref \<Rightarrow> int list list list \<Rightarrow> nat list \<Rightarrow> store \<times> string list \<Rightarrow> error + (store \<times> string list)" where
  "Prolong_i td X v a J [] s = Inr s"
| "Prolong_i td X v a J (i # is) s =
     ebind (Prolong_j td X v a J i [0 ..< length X] s) (\<lambda>s'.
       Prolong_i td X v a J is s')"

definition Prolong :: "totDiv_binding \<Rightarrow> string list \<Rightarrow> string list \<Rightarrow> ref \<Rightarrow> int \<Rightarrow> store \<Rightarrow> error + (ref \<times> store \<times> string list)" where
  "Prolong td X U v n h =
     (let a = v; J = diffOrd (length X) n in
      ebind (Prolong_i td X v a J [0 ..< nat n] (h, U)) (\<lambda>(h', U').
        Inr (a, h', U')))"

subsection \<open>Reference notions for the properties\<close>

text \<open>
  Left-to-right composition of the single total derivative bound to \<open>totDiv\<close>, over the
  multi-index as it is given, every call with the same order ceiling \<open>n\<close>.
\<close>

fun compose_left :: "totDiv_binding \<Rightarrow> string list \<Rightarrow> int \<Rightarrow> int list \<Rightarrow> expr \<times> string list \<Rightarrow> error + (expr \<times> string list)" where
  "compose_left td X n [] (e, U) = Inr (e, U)"
| "compose_left td X n (j # J) (e, U) = ebind (td X U e j n) (compose_left td X n J)"


text \<open>
  What the scan of \<open>njet\<close> is meant to compute: of the symbols with the same characters,
  the first one.
\<close>

fun first_of_each :: "string list \<Rightarrow> string list" where
  "first_of_each [] = []"
| "first_of_each (s # ss) = s # first_of_each (filter (\<lambda>t. mset t \<noteq> mset s) ss)"

text \<open>The characters that occur in a list of labels.\<close>

definition label_chars :: "string list \<Rightarrow> char set" where
  "label_chars X = \<Union> (set ` set X)"

text \<open>The list that \<open>njet\<close> returns (it never raises, lemma \<open>njet_returns\<close>).\<close>

definition njet_list :: "string list \<Rightarrow> string list \<Rightarrow> int \<Rightarrow> string list" where
  "njet_list X U n = (case njet X U n of Inl e \<Rightarrow> [] | Inr J \<Rightarrow> J)"


text \<open>
  The jet coordinates of the orders 1 to \<open>n\<close>, in the order \<open>fulljet\<close> lists them; those
  coordinates without the members of \<open>X\<close>, which is the range of the sum in the
  specification of the total derivative; and the same with the labels of \<open>U\<close> in front,
  the orders 0 to \<open>n\<close>.
\<close>

definition order_bands :: "string list \<Rightarrow> string list \<Rightarrow> int \<Rightarrow> string list" where
  "order_bands X U n = concat (map (\<lambda>i. njet_list X U (int i + 1)) [0 ..< nat n])"


definition jet_coordinates :: "string list \<Rightarrow> string list \<Rightarrow> int \<Rightarrow> string list" where
  "jet_coordinates X U n = filter (\<lambda>v. v \<notin> set X) (U @ order_bands X U n)"



text \<open>
  Labels as the specification wants them, for the notebook's one-character symbol
  scheme: every label a single character, no label used twice across \<open>X\<close> and \<open>U\<close>.
\<close>

definition well_formed :: "string list \<Rightarrow> string list \<Rightarrow> bool" where
  "well_formed X U = ((\<forall>l\<in>set (X @ U). length l = 1) \<and> distinct (X @ U))"


section \<open>Properties\<close>

subsection \<open>Sorted characters and character multisets\<close>

lemma py_sorted_eq_iff: "py_sorted a = py_sorted b \<longleftrightarrow> mset a = mset b"
  unfolding py_sorted_def
  by (metis mset_sort properties_for_sort sorted_sort)

subsection \<open>Exceptions, and the loops of \<open>njet\<close> never raising\<close>

lemma ebind_Inr_iff: "ebind m f = Inr y \<longleftrightarrow> (\<exists>x. m = Inr x \<and> f x = Inr y)"
  by (cases m) (simp_all add: ebind_def)

lemma ebind_Inr [simp]: "ebind (Inr x) f = f x"
  by (simp add: ebind_def)

lemma ebind_Inl [simp]: "ebind (Inl e) f = Inl e"
  by (simp add: ebind_def)

lemma njet_inner_subset: "njet_inner J i k c = Inr J' \<Longrightarrow> set J' \<subseteq> set J"
proof (induction c arbitrary: J k)
  case 0
  then show ?case by simp
next
  case (Suc c)
  show ?case
  proof (cases "py_sorted (J ! i) = py_sorted (J ! k)")
    case True
    with Suc.prems have "njet_inner (remove1 (J ! k) J) i k c = Inr J'"
      by (simp split: if_splits)
    from Suc.IH [OF this] show ?thesis
      using set_remove1_subset by fastforce
  next
    case False
    with Suc.prems have "njet_inner J i (k + 1) c = Inr J'"
      by (simp split: if_splits)
    from Suc.IH [OF this] show ?thesis .
  qed
qed

lemma njet_outer_subset: "njet_outer J i c = Inr J' \<Longrightarrow> set J' \<subseteq> set J"
proof (induction c arbitrary: J i)
  case 0
  then show ?case by simp
next
  case (Suc c)
  from Suc.prems obtain J1 where
    in1: "njet_inner J i (i + 1) (length J - 1 - (i + 1)) = Inr J1"
    and rest: "(if int i \<ge> int (length J1) - 2 then Inr J1 else njet_outer J1 (i + 1) c) = Inr J'"
    by (auto split: sum.splits)
  have s1: "set J1 \<subseteq> set J"
    using in1 by (rule njet_inner_subset)
  show ?case
  proof (cases "int i \<ge> int (length J1) - 2")
    case True
    with rest s1 show ?thesis by simp
  next
    case False
    with rest have "njet_outer J1 (i + 1) c = Inr J'" by simp
    from Suc.IH [OF this] s1 show ?thesis by blast
  qed
qed

lemma njet_inner_returns:
  "i < k \<Longrightarrow> c = 0 \<or> k + c < length J \<Longrightarrow> \<exists>J'. njet_inner J i k c = Inr J'"
proof (induction c arbitrary: J k)
  case 0
  then show ?case by simp
next
  case (Suc c)
  then have kc: "k + Suc c < length J" by simp
  then have k: "k < length J" and i: "i < length J" using Suc.prems(1) by simp_all
  show ?case
  proof (cases "py_sorted (J ! i) = py_sorted (J ! k)")
    case True
    have "length (remove1 (J ! k) J) = length J - 1"
      using k by (simp add: length_remove1)
    with kc have "c = 0 \<or> k + c < length (remove1 (J ! k) J)" by arith
    from Suc.IH [OF Suc.prems(1) this] True i k show ?thesis by simp
  next
    case False
    have "i < k + 1" using Suc.prems(1) by simp
    moreover have "c = 0 \<or> (k + 1) + c < length J" using kc by simp
    ultimately have "\<exists>J'. njet_inner J i (k + 1) c = Inr J'" by (rule Suc.IH)
    with False i k show ?thesis by simp
  qed
qed

lemma njet_outer_returns: "\<exists>J'. njet_outer J i c = Inr J'"
proof (induction c arbitrary: J i)
  case 0
  show ?case by simp
next
  case (Suc c)
  have "length J - 1 - (i + 1) = 0 \<or> (i + 1) + (length J - 1 - (i + 1)) < length J"
    by arith
  with njet_inner_returns [of i "i + 1"] obtain J1
    where "njet_inner J i (i + 1) (length J - 1 - (i + 1)) = Inr J1"
    by (metis less_add_one)
  with Suc.IH [of J1 "i + 1"] show ?case by auto
qed

lemma njet_returns: "\<exists>J. njet X U n = Inr J"
  by (simp add: njet_def Let_def njet_outer_returns)

lemma njet_subset: "njet X U n = Inr J \<Longrightarrow> set J \<subseteq> set ((jet X ^^ nat n) U)"
  by (simp add: njet_def Let_def njet_outer_subset)

lemma fulljet_loop_returns: "\<exists>F. fulljet_loop X U is J = Inr F"
proof (induction "is" arbitrary: J)
  case Nil
  show ?case by simp
next
  case (Cons i "is")
  obtain N where "njet X U (int i + 1) = Inr N" using njet_returns by blast
  with Cons.IH [of "J @ N"] show ?case by simp
qed

lemma fulljet_returns: "\<exists>F. fulljet X U n = Inr F"
  by (simp add: fulljet_def fulljet_loop_returns)

subsection \<open>Calls that leave \<open>U\<close> as it was\<close>



lemma uJalpha_cases:
  assumes "uJalpha u x X U = Inr (r, U')"
  obtains J where "njet X U (int (length (py_str u))) = Inr J"
    and "U' = njet_U U (int (length (py_str u))) J"
    and "r = find (\<lambda>s. py_sorted (py_str u @ x) = py_sorted s) J"
  using assms by (auto simp: uJalpha_def ebind_Inr_iff)








subsection \<open>The composed total derivative\<close>

lemma py_index_nat: "i < length xs \<Longrightarrow> py_index xs (int i) = Inr (xs ! i)"
  by (simp add: py_index_def)

lemma TotDiv_loop_compose:
  "i + c = length J \<Longrightarrow> TotDiv_loop td X U J n i c e = compose_left td X n (drop i J) (e, U)"
proof (induction c arbitrary: i e U)
  case 0
  then show ?case by simp
next
  case (Suc c)
  then have i: "i < length J" by simp
  then have d: "drop i J = J ! i # drop (Suc i) J"
    by (simp add: Cons_nth_drop_Suc)
  have "TotDiv_loop td X U' J n (i + 1) c e' = compose_left td X n (drop (Suc i) J) (e', U')"
    for e' U'
    using Suc.IH [of "i + 1"] Suc.prems by simp
  then show ?case
    using i by (simp add: d py_index_nat ebind_def split: sum.splits)
qed

lemma TotDiv_compose:
  assumes "J \<noteq> []"
  shows "TotDiv td X U P n J = compose_left td X n J (P, U)"
proof -
  from assms obtain j J' where J: "J = j # J'" by (cases J) auto
  have "TotDiv_loop td X U' J n 1 (length J - 1) e = compose_left td X n (drop 1 J) (e, U')"
    for e U'
    by (rule TotDiv_loop_compose) (simp add: J)
  then show ?thesis
    by (simp add: TotDiv_def J py_index_def ebind_def split: sum.splits)
qed







subsection \<open>What \<open>Prolong\<close> does to the store\<close>






subsection \<open>The scan of \<open>njet\<close> on a list without repeated strings\<close>

text \<open>
  The inner loop never looks at the last element of the list, so the scan keeps the first
  symbol of each character multiset among all but the last candidate, and the last
  candidate.
\<close>

lemma distinct_split_nth:
  assumes "distinct J" and "k < length J"
  shows "J ! k \<notin> set (take k J)" and "distinct (take k J @ drop (Suc k) J)"
proof -
  have "J = take k J @ J ! k # drop (Suc k) J"
    using assms(2) by (rule id_take_nth_drop)
  with assms(1) have d: "distinct (take k J @ J ! k # drop (Suc k) J)"
    by simp
  from d show "J ! k \<notin> set (take k J)" by simp
  from d show "distinct (take k J @ drop (Suc k) J)" by simp
qed

lemma remove1_nth_distinct:
  assumes "distinct J" and "k < length J"
  shows "remove1 (J ! k) J = take k J @ drop (Suc k) J"
proof -
  have J: "J = take k J @ J ! k # drop (Suc k) J"
    using assms(2) by (rule id_take_nth_drop)
  have "remove1 (J ! k) (take k J @ J ! k # drop (Suc k) J) = take k J @ drop (Suc k) J"
    using distinct_split_nth(1) [OF assms] by (simp add: remove1_append)
  with J show ?thesis by simp
qed

lemma njet_inner_distinct:
  "distinct J \<Longrightarrow> i < k \<Longrightarrow> k + c < length J \<Longrightarrow>
     njet_inner J i k c =
       Inr (take k J @ filter (\<lambda>t. mset t \<noteq> mset (J ! i)) (take c (drop k J)) @ drop (k + c) J)"
proof (induction c arbitrary: J k)
  case 0
  then show ?case by simp
next
  case (Suc c)
  let ?P = "\<lambda>t. mset t \<noteq> mset (J ! i)"
  from Suc.prems have k: "k < length J" and i: "i < length J" by simp_all
  have tk: "take (Suc c) (drop k J) = J ! k # take c (drop (Suc k) J)"
    using k by (simp add: Cons_nth_drop_Suc [symmetric])
  show ?case
  proof (cases "py_sorted (J ! i) = py_sorted (J ! k)")
    case True
    let ?J = "take k J @ drop (Suc k) J"
    have r: "remove1 (J ! k) J = ?J"
      using Suc.prems(1) k by (rule remove1_nth_distinct)
    have d: "distinct ?J"
      using Suc.prems(1) k by (rule distinct_split_nth(2))
    have len: "k + c < length ?J"
      using Suc.prems(3) k by simp
    have ji: "?J ! i = J ! i"
      using Suc.prems(2) k by (simp add: nth_append)
    have t1: "take k ?J = take k J"
      using k by simp
    have t2: "drop k ?J = drop (Suc k) J"
      using k by simp
    have t3: "drop (k + c) ?J = drop (k + Suc c) J"
      using k by (simp add: add.commute)
    from Suc.IH [OF d Suc.prems(2) len]
    have "njet_inner ?J i k c =
        Inr (take k J @ filter ?P (take c (drop (Suc k) J)) @ drop (k + Suc c) J)"
      by (simp only: ji t1 t2 t3)
    with True i k r show ?thesis
      by (simp add: tk py_sorted_eq_iff)
  next
    case False
    from Suc.IH [OF Suc.prems(1), of "k + 1"] Suc.prems(2,3)
    have "njet_inner J i (k + 1) c =
        Inr (take (k + 1) J @ filter ?P (take c (drop (k + 1) J)) @ drop (k + 1 + c) J)"
      by simp
    with False i k show ?thesis
      by (simp add: tk py_sorted_eq_iff take_Suc_conv_app_nth)
  qed
qed

lemma njet_outer_distinct:
  "distinct (A @ B @ [l]) \<Longrightarrow> length B \<le> c \<Longrightarrow>
     njet_outer (A @ B @ [l]) (length A) c = Inr (A @ first_of_each B @ [l])"
proof (induction c arbitrary: A B)
  case 0
  then show ?case by simp
next
  case (Suc c)
  show ?case
  proof (cases B)
    case Nil
    then show ?thesis by simp
  next
    case (Cons b B')
    let ?J = "A @ B @ [l]"
    let ?i = "length A"
    let ?B = "filter (\<lambda>t. mset t \<noteq> mset b) B'"
    have cnt: "length ?J - 1 - (?i + 1) = length B'"
      by (simp add: Cons)
    have ji: "?J ! ?i = b"
      by (simp add: Cons)
    have "njet_inner ?J ?i (?i + 1) (length B') =
        Inr (take (?i + 1) ?J @
             filter (\<lambda>t. mset t \<noteq> mset (?J ! ?i)) (take (length B') (drop (?i + 1) ?J)) @
             drop (?i + 1 + length B') ?J)"
      using Suc.prems(1) by (intro njet_inner_distinct) (simp_all add: Cons)
    then have inner: "njet_inner ?J ?i (?i + 1) (length ?J - 1 - (?i + 1)) =
        Inr ((A @ [b]) @ ?B @ [l])"
      by (simp add: cnt ji) (simp add: Cons)
    have d: "distinct ((A @ [b]) @ ?B @ [l])"
      using Suc.prems(1) by (auto simp: Cons)
    have len: "length ?B \<le> c"
      using Suc.prems(2) by (simp add: Cons le_trans [OF length_filter_le])
    show ?thesis
    proof (cases "?B = []")
      case True
      with inner show ?thesis
        by (simp add: Cons del: append_assoc)
    next
      case False
      then have "\<not> int ?i \<ge> int (length ((A @ [b]) @ ?B @ [l])) - 2"
        by (cases ?B) simp_all
      moreover from Suc.IH [OF d len]
      have "njet_outer ((A @ [b]) @ ?B @ [l]) (?i + 1) c = Inr ((A @ [b]) @ first_of_each ?B @ [l])"
        by simp
      ultimately show ?thesis
        using inner by (simp add: Cons del: append_assoc)
    qed
  qed
qed

lemma njet_outer_start:
  assumes "distinct J" and "J \<noteq> []"
  shows "njet_outer J 0 (length J) = Inr (first_of_each (butlast J) @ [last J])"
proof -
  from assms(2) have J: "J = [] @ butlast J @ [last J]" by simp
  have "njet_outer ([] @ butlast J @ [last J]) (length ([] :: string list)) (length J) =
      Inr ([] @ first_of_each (butlast J) @ [last J])"
    using assms by (intro njet_outer_distinct) simp_all
  with J show ?thesis by simp
qed

subsection \<open>The first symbol of each character multiset\<close>

lemma first_of_each_subset: "set (first_of_each B) \<subseteq> set B"
  by (induction B rule: first_of_each.induct) auto

lemma first_of_each_keys: "mset ` set (first_of_each B) = mset ` set B"
proof (induction B rule: first_of_each.induct)
  case 1
  show ?case by simp
next
  case (2 s ss)
  have "mset ` set (s # ss) = insert (mset s) (mset ` set (filter (\<lambda>t. mset t \<noteq> mset s) ss))"
    by auto
  with 2 show ?case by simp
qed

lemma first_of_each_distinct_keys: "distinct (map mset (first_of_each B))"
proof (induction B rule: first_of_each.induct)
  case 1
  show ?case by simp
next
  case (2 s ss)
  have "mset s \<notin> mset ` set (first_of_each (filter (\<lambda>t. mset t \<noteq> mset s) ss))"
    using first_of_each_subset [of "filter (\<lambda>t. mset t \<noteq> mset s) ss"] by auto
  with 2 show ?case by simp
qed

lemma first_of_each_length: "length (first_of_each B) = card (mset ` set B)"
proof -
  have "length (first_of_each B) = length (map mset (first_of_each B))" by simp
  also have "\<dots> = card (set (map mset (first_of_each B)))"
    using distinct_card [OF first_of_each_distinct_keys, of B] by simp
  also have "\<dots> = card (mset ` set B)"
    by (simp add: first_of_each_keys)
  finally show ?thesis .
qed

lemma find_append_Some: "find P xs = Some t \<Longrightarrow> find P (xs @ ys) = Some t"
  by (induction xs) (auto split: if_splits)

lemma first_of_each_find:
  "w \<in> set B \<Longrightarrow> \<exists>t. find (\<lambda>t. mset w = mset t) (first_of_each B @ ys) = Some t \<and> t \<in> set B"
proof -
  assume "w \<in> set B"
  then have "mset w \<in> mset ` set (first_of_each B)"
    by (simp add: first_of_each_keys)
  then obtain t0 where "t0 \<in> set (first_of_each B)" "mset w = mset t0" by auto
  then obtain t where t: "find (\<lambda>t. mset w = mset t) (first_of_each B) = Some t"
    by (cases "find (\<lambda>t. mset w = mset t) (first_of_each B)") (auto simp: find_None_iff)
  then have "t \<in> set (first_of_each B)"
    by (auto simp: find_Some_iff)
  with first_of_each_subset have "t \<in> set B" by auto
  with find_append_Some [OF t] show ?thesis by simp
qed

subsection \<open>The candidates that \<open>njet\<close> scans\<close>

lemma jet_Cons: "jet X (u # J) = map ((@) u) X @ jet X J"
  by (simp add: jet_def)

lemma jet_set: "set (jet X J) = {s @ x | s x. s \<in> set J \<and> x \<in> set X}"
  by (auto simp: jet_def)

lemma jet_distinct:
  assumes "distinct X" and "\<forall>s\<in>set J. length s = m"
  shows "distinct J \<Longrightarrow> distinct (jet X J)"
  using assms(2)
proof (induction J)
  case Nil
  show ?case by (simp add: jet_def)
next
  case (Cons u J)
  have "distinct (map ((@) u) X)"
    using assms(1) by (simp add: distinct_map inj_on_def)
  moreover have "set (map ((@) u) X) \<inter> set (jet X J) = {}"
  proof -
    have False if "x \<in> set X" "s \<in> set J" "y \<in> set X" "u @ x = s @ y" for x s y
    proof -
      from Cons.prems(2) that(2) have "length u = length s" by simp
      with that(4) have "u = s" by simp
      with Cons.prems(1) that(2) show False by simp
    qed
    then show ?thesis by (auto simp: jet_set)
  qed
  moreover have "distinct (jet X J)"
    using Cons by simp
  ultimately show ?case by (simp add: jet_Cons)
qed

lemma jet_lengths:
  assumes "\<forall>x\<in>set X. length x = 1" and "\<forall>s\<in>set J. length s = m"
  shows "\<forall>s\<in>set (jet X J). length s = Suc m"
  using assms by (auto simp: jet_set)

lemma funpow_jet_lengths:
  assumes "\<forall>x\<in>set X. length x = 1" and "\<forall>u\<in>set U. length u = m"
  shows "\<forall>s\<in>set ((jet X ^^ k) U). length s = m + k"
proof (induction k)
  case 0
  with assms(2) show ?case by simp
next
  case (Suc k)
  from jet_lengths [OF assms(1) Suc] show ?case by simp
qed

lemma funpow_jet_distinct:
  assumes "distinct X" and "\<forall>x\<in>set X. length x = 1"
    and "distinct U" and "\<forall>u\<in>set U. length u = m"
  shows "distinct ((jet X ^^ k) U)"
proof (induction k)
  case 0
  with assms(3) show ?case by simp
next
  case (Suc k)
  from jet_distinct [OF assms(1) funpow_jet_lengths [OF assms(2,4)] Suc]
  show ?case by simp
qed

lemma njet_words:
  assumes "distinct ((jet X ^^ nat n) U)"
  shows "njet X U n =
    Inr (let W = (jet X ^^ nat n) U in if W = [] then [] else first_of_each (butlast W) @ [last W])"
proof (cases "(jet X ^^ nat n) U = []")
  case True
  then show ?thesis by (simp add: njet_def)
next
  case False
  with njet_outer_start [OF assms False] show ?thesis
    by (simp add: njet_def Let_def)
qed

subsection \<open>Counting the candidates up to their characters\<close>

lemma snoc_words:
  "{w. length w = Suc k \<and> set w \<subseteq> C} = {w @ [c] | w c. length w = k \<and> set w \<subseteq> C \<and> c \<in> C}"
proof (intro set_eqI iffI)
  fix w :: "'a list"
  assume "w \<in> {w. length w = Suc k \<and> set w \<subseteq> C}"
  then have l: "length w = Suc k" and s: "set w \<subseteq> C" by simp_all
  from l have ne: "w \<noteq> []" by auto
  then have w: "w = butlast w @ [last w]" by simp
  have "length (butlast w) = k" using l by simp
  moreover have "set (butlast w) \<subseteq> C" using s by (meson in_set_butlastD subset_iff)
  moreover have "last w \<in> C" using s ne by (meson last_in_set subset_iff)
  ultimately show "w \<in> {w @ [c] | w c. length w = k \<and> set w \<subseteq> C \<and> c \<in> C}"
    using w by blast
next
  fix w :: "'a list"
  assume "w \<in> {w @ [c] | w c. length w = k \<and> set w \<subseteq> C \<and> c \<in> C}"
  then show "w \<in> {w. length w = Suc k \<and> set w \<subseteq> C}" by auto
qed

lemma single_char_labels:
  assumes "\<forall>x\<in>set X. length x = 1"
  shows "set X = (\<lambda>c. [c]) ` label_chars X"
proof -
  have "x = [hd x] \<and> set x = {hd x}" if "x \<in> set X" for x
  proof -
    from assms that have "length x = 1" by simp
    then show ?thesis by (cases x) auto
  qed
  then show ?thesis
    unfolding label_chars_def by (auto simp: image_iff)
qed

lemma card_label_chars:
  assumes "\<forall>x\<in>set X. length x = 1" and "distinct X"
  shows "card (label_chars X) = length X"
proof -
  have "card (set X) = card ((\<lambda>c. [c]) ` label_chars X)"
    using single_char_labels [OF assms(1)] by simp
  also have "\<dots> = card (label_chars X)"
    by (rule card_image) (simp add: inj_on_def)
  finally show ?thesis using assms(2) by (simp add: distinct_card)
qed

lemma funpow_jet_words:
  assumes "\<forall>x\<in>set X. length x = 1"
  shows "set ((jet X ^^ k) U) =
    {u @ w | u w. u \<in> set U \<and> length w = k \<and> set w \<subseteq> label_chars X}"
proof (induction k)
  case 0
  show ?case by auto
next
  case (Suc k)
  let ?C = "label_chars X"
  have "set ((jet X ^^ Suc k) U) = {s @ x | s x. s \<in> set ((jet X ^^ k) U) \<and> x \<in> set X}"
    by (simp add: jet_set)
  also have "\<dots> = {(u @ w) @ [c] | u w c. u \<in> set U \<and> length w = k \<and> set w \<subseteq> ?C \<and> c \<in> ?C}"
    unfolding Suc single_char_labels [OF assms] by blast
  also have "\<dots> = {u @ w' | u w'. u \<in> set U \<and> w' \<in> {w @ [c] | w c. length w = k \<and> set w \<subseteq> ?C \<and> c \<in> ?C}}"
    by auto
  also have "\<dots> = {u @ w | u w. u \<in> set U \<and> length w = Suc k \<and> set w \<subseteq> ?C}"
    unfolding snoc_words [symmetric] by simp
  finally show ?case .
qed

lemma mset_words: "mset ` {w. length w = k \<and> set w \<subseteq> C} = multisets_of_size C k"
proof (intro set_eqI iffI)
  fix M
  assume "M \<in> mset ` {w. length w = k \<and> set w \<subseteq> C}"
  then show "M \<in> multisets_of_size C k"
    by (auto simp: multisets_of_size_def)
next
  fix M :: "'a multiset"
  assume M: "M \<in> multisets_of_size C k"
  obtain w where w: "mset w = M" using ex_mset by blast
  with M have "length w = k" "set w \<subseteq> C"
    by (auto simp: multisets_of_size_def size_mset [symmetric] simp del: size_mset)
  with w show "M \<in> mset ` {w. length w = k \<and> set w \<subseteq> C}" by blast
qed

lemma card_word_keys:
  assumes "\<forall>x\<in>set X. length x = 1" and "distinct X"
  shows "card (mset ` set ((jet X ^^ k) [u])) = (length X + k - 1) choose k"
proof -
  let ?C = "label_chars X"
  have fin: "finite ?C" by (simp add: label_chars_def)
  have "set ((jet X ^^ k) [u]) = (\<lambda>w. u @ w) ` {w. length w = k \<and> set w \<subseteq> ?C}"
    unfolding funpow_jet_words [OF assms(1)] by auto
  then have "mset ` set ((jet X ^^ k) [u]) =
      (\<lambda>M. mset u + M) ` (mset ` {w. length w = k \<and> set w \<subseteq> ?C})"
    by (simp add: image_image)
  also have "\<dots> = (\<lambda>M. mset u + M) ` multisets_of_size ?C k"
    by (simp add: mset_words)
  finally have "card (mset ` set ((jet X ^^ k) [u])) = card ((\<lambda>M. mset u + M) ` multisets_of_size ?C k)"
    by simp
  also have "\<dots> = card (multisets_of_size ?C k)"
    by (rule card_image) (simp add: inj_on_def)
  also have "\<dots> = (card ?C + k - 1) choose k"
    using fin by (rule card_multisets_of_size)
  finally show ?thesis
    by (simp add: card_label_chars [OF assms])
qed

lemma jet_last: "J \<noteq> [] \<Longrightarrow> X \<noteq> [] \<Longrightarrow> jet X J \<noteq> [] \<and> last (jet X J) = last J @ last X"
proof (induction J)
  case Nil
  then show ?case by simp
next
  case (Cons u J)
  show ?case
  proof (cases "J = []")
    case True
    with Cons.prems show ?thesis
      by (simp add: jet_def last_map)
  next
    case False
    with Cons show ?thesis by (simp add: jet_Cons)
  qed
qed

lemma concat_replicate_snoc: "concat (replicate k l) @ l = concat (replicate (Suc k) l)"
  by (induction k) simp_all

lemma concat_replicate_single: "concat (replicate k [c]) = replicate k c"
  by (induction k) simp_all

lemma funpow_jet_last:
  assumes "X \<noteq> []"
  shows "(jet X ^^ k) [u] \<noteq> [] \<and> last ((jet X ^^ k) [u]) = u @ concat (replicate k (last X))"
proof (induction k)
  case 0
  show ?case by simp
next
  case (Suc k)
  with jet_last [of "(jet X ^^ k) [u]" X] assms
  have "(jet X ^^ Suc k) [u] \<noteq> []"
    and "last ((jet X ^^ Suc k) [u]) = u @ concat (replicate k (last X)) @ last X"
    by simp_all
  then show ?case
    by (simp only: concat_replicate_snoc) simp
qed

lemma last_word_key:
  assumes "\<forall>x\<in>set X. length x = 1" and "X \<noteq> []"
    and "w \<in> set ((jet X ^^ k) [u])"
    and "mset w = mset (last ((jet X ^^ k) [u]))"
  shows "w = last ((jet X ^^ k) [u])"
proof -
  from assms(1,2) have "length (last X) = 1" by simp
  then obtain c where c: "last X = [c]" by (cases "last X") auto
  have l: "last ((jet X ^^ k) [u]) = u @ replicate k c"
    using funpow_jet_last [OF assms(2), of k u]
    by (simp add: c concat_replicate_single)
  from assms(3) obtain w' where w: "w = u @ w'" and len: "length w' = k"
    unfolding funpow_jet_words [OF assms(1)] by auto
  from assms(4) have "mset w' = mset (replicate k c)"
    by (simp add: w l)
  then have "set w' = set (replicate k c)"
    by (rule mset_eq_setD)
  then have "\<And>y. y \<in> set w' \<Longrightarrow> y = c"
    by (auto split: if_splits)
  with len have "w' = replicate k c"
    by (intro replicate_eqI) simp_all
  with w l show ?thesis by simp
qed

subsection \<open>\<open>totDiv\<close> as a chain-rule sum\<close>

lemma njet_njet_list: "njet X U n = Inr (njet_list X U n)"
  using njet_returns [of X U n] by (auto simp: njet_list_def)

lemma fulljet_loop_bands:
  "fulljet_loop X U is J = Inr (J @ concat (map (\<lambda>i. njet_list X U (int i + 1)) is))"
  by (induction "is" arbitrary: J) (simp_all add: njet_njet_list)

lemma fulljet_bands: "fulljet X U n = Inr (X @ U @ order_bands X U n)"
  by (simp add: fulljet_def fulljet_loop_bands order_bands_def)

lemma fulljet_filter:
  "filter (\<lambda>v. v \<notin> set X) (X @ U @ order_bands X U n) = jet_coordinates X U n"
  by (simp add: jet_coordinates_def)

lemma totDiv_unfold:
  "py_index X i = Inr x \<Longrightarrow>
     totDiv X U P i n = totDiv_loop X U P x (jet_coordinates X U n) (diff P x)"
  unfolding totDiv_def fulljet_bands by (simp only: ebind_Inr fulljet_filter)









lemma njet_lengths:
  assumes "\<forall>l\<in>set (X @ U). length l = 1" and "njet X U n = Inr J" and "s \<in> set J"
  shows "length s = nat n + 1"
proof -
  from assms(1) have X: "\<forall>x\<in>set X. length x = 1" and U: "\<forall>u\<in>set U. length u = 1"
    by simp_all
  from njet_subset [OF assms(2)] assms(3) have "s \<in> set ((jet X ^^ nat n) U)" by auto
  with funpow_jet_lengths [OF X U, of "nat n"] show ?thesis by simp
qed

lemma uJalpha_result_in_njet:
  assumes "uJalpha u x X U = Inr (Some t, U')" and "njet X U (int (length (py_str u))) = Inr J"
  shows "t \<in> set J \<and> mset t = mset (py_str u @ x)"
proof -
  from assms have "find (\<lambda>s. py_sorted (py_str u @ x) = py_sorted s) J = Some t"
    by (auto elim!: uJalpha_cases)
  then show ?thesis
    by (auto simp: find_Some_iff py_sorted_eq_iff)
qed

subsection \<open>Derivatives of the chain-rule sum\<close>





subsection \<open>The jet space and the resolver for well-formed labels\<close>

lemma well_formed_words:
  assumes "well_formed X U"
  shows "distinct ((jet X ^^ k) U)" and "\<forall>s\<in>set ((jet X ^^ k) U). length s = 1 + k"
proof -
  from assms have X: "\<forall>x\<in>set X. length x = 1" "distinct X"
    and U: "\<forall>u\<in>set U. length u = 1" "distinct U"
    by (simp_all add: well_formed_def)
  from funpow_jet_distinct [OF X(2,1) U(2,1)] show "distinct ((jet X ^^ k) U)" .
  from funpow_jet_lengths [OF X(1) U(1)] show "\<forall>s\<in>set ((jet X ^^ k) U). length s = 1 + k" .
qed

lemma njet_list_words:
  assumes "well_formed X U"
  shows "njet_list X U n =
    (let W = (jet X ^^ nat n) U in if W = [] then [] else first_of_each (butlast W) @ [last W])"
  using njet_words [OF well_formed_words(1) [OF assms], of n] by (simp add: njet_list_def)















subsection \<open>The engine up to algebraic equality\<close>

text \<open>
  The derivative of an expression depends only on the polynomial it denotes, and so does
  what \<open>totDiv\<close> returns: the normal form in which the engine hands an intermediate
  result on does not matter to the claims, which speak of algebraic equality.
\<close>

lemma eval_shift:
  "\<exists>R. eval (env(s := env s + h)) P = eval env P + h * eval env (diff P s) + h * h * R"
proof (induction P)
  case (Num c)
  show ?case by simp
next
  case (Sym t)
  show ?case by simp
next
  case (Add a b)
  from Add obtain Ra Rb where
    "eval (env(s := env s + h)) a = eval env a + h * eval env (diff a s) + h * h * Ra"
    "eval (env(s := env s + h)) b = eval env b + h * eval env (diff b s) + h * h * Rb"
    by blast
  then have "eval (env(s := env s + h)) (Add a b) =
      eval env (Add a b) + h * eval env (diff (Add a b) s) + h * h * (Ra + Rb)"
    by (simp add: algebra_simps)
  then show ?case ..
next
  case (Mul a b)
  from Mul obtain Ra Rb where
    "eval (env(s := env s + h)) a = eval env a + h * eval env (diff a s) + h * h * Ra"
    "eval (env(s := env s + h)) b = eval env b + h * eval env (diff b s) + h * h * Rb"
    by blast
  then have "eval (env(s := env s + h)) (Mul a b) =
      eval env (Mul a b) + h * eval env (diff (Mul a b) s) +
      h * h * (eval env a * Rb + eval env (diff a s) * eval env (diff b s)
               + h * eval env (diff a s) * Rb + Ra * eval env b
               + h * Ra * eval env (diff b s) + h * h * Ra * Rb)"
    by (simp add: algebra_simps)
  then show ?case ..
qed

lemma diff_alg_eq:
  assumes "alg_eq P Q"
  shows "alg_eq (diff P s) (diff Q s)"
  unfolding alg_eq_def
proof
  fix env
  define D where "D = eval env (diff P s) - eval env (diff Q s)"
  define h where "h = \<bar>D\<bar> + 1"
  obtain R1 where 1: "eval (env(s := env s + h)) P =
      eval env P + h * eval env (diff P s) + h * h * R1"
    using eval_shift by blast
  obtain R2 where 2: "eval (env(s := env s + h)) Q =
      eval env Q + h * eval env (diff Q s) + h * h * R2"
    using eval_shift by blast
  from assms have "eval (env(s := env s + h)) P = eval (env(s := env s + h)) Q"
    and "eval env P = eval env Q"
    by (simp_all add: alg_eq_def)
  with 1 2 have "h * (D + h * (R1 - R2)) = 0"
    by (simp add: D_def algebra_simps)
  moreover have "h \<noteq> 0" by (simp add: h_def)
  ultimately have "D + h * (R1 - R2) = 0"
    by simp
  then have "D = h * (R2 - R1)"
    by (simp add: algebra_simps)
  then have dvd: "h dvd D" by simp
  have less: "\<bar>D\<bar> < h" by (simp add: h_def)
  have "D = 0"
  proof (rule ccontr)
    assume "D \<noteq> 0"
    from dvd_imp_le_int [OF this dvd] less show False by simp
  qed
  then show "eval env (diff P s) = eval env (diff Q s)"
    by (simp add: D_def)
qed

lemma Add_alg_eq: "alg_eq a a' \<Longrightarrow> alg_eq b b' \<Longrightarrow> alg_eq (Add a b) (Add a' b')"
  by (simp add: alg_eq_def)

lemma Mul_alg_eq: "alg_eq a a' \<Longrightarrow> alg_eq b b' \<Longrightarrow> alg_eq (Mul a b) (Mul a' b')"
  by (simp add: alg_eq_def)

lemma totDiv_loop_alg_eq:
  "alg_eq P Q \<Longrightarrow> alg_eq e e' \<Longrightarrow> totDiv_loop X U P x W e = Inr (r, U1) \<Longrightarrow>
     \<exists>r'. totDiv_loop X U Q x W e' = Inr (r', U1) \<and> alg_eq r r'"
proof (induction W arbitrary: e e' U)
  case Nil
  then show ?case by simp
next
  case (Cons s W)
  from Cons.prems(3) obtain t U' where
    u: "uJalpha (PStr s) x X U = Inr (Some t, U')"
    and l: "totDiv_loop X U' P x W (Add e (Mul (diff P s) (Sym t))) = Inr (r, U1)"
    by (auto simp: ebind_Inr_iff elim!: py_mul.elims)
  have "alg_eq (Add e (Mul (diff P s) (Sym t))) (Add e' (Mul (diff Q s) (Sym t)))"
    using Cons.prems(2) diff_alg_eq [OF Cons.prems(1), of s] by (simp add: alg_eq_def)
  from Cons.IH [OF Cons.prems(1) this l] u show ?case
    by simp
qed

lemma totDiv_alg_eq:
  assumes "alg_eq P Q" and "totDiv X U P i n = Inr (e, U1)"
  shows "\<exists>e'. totDiv X U Q i n = Inr (e', U1) \<and> alg_eq e e'"
proof -
  from assms(2) obtain x where x: "py_index X i = Inr x"
    by (auto simp: totDiv_def ebind_Inr_iff)
  from assms(2) have "totDiv_loop X U P x (jet_coordinates X U n) (diff P x) = Inr (e, U1)"
    by (simp only: totDiv_unfold [OF x])
  from totDiv_loop_alg_eq [OF assms(1) diff_alg_eq [OF assms(1)] this]
  show ?thesis
    by (simp only: totDiv_unfold [OF x])
qed

subsection \<open>The size of the jet space for several dependent variables\<close>

lemma well_formed_chars:
  assumes "well_formed X U"
  shows "label_chars X \<inter> label_chars U = {}"
    and "card (label_chars X) = length X" and "card (label_chars U) = length U"
    and "set U = (\<lambda>c. [c]) ` label_chars U"
proof -
  from assms have X: "\<forall>x\<in>set X. length x = 1" "distinct X"
    and U: "\<forall>u\<in>set U. length u = 1" "distinct U"
    and XU: "set X \<inter> set U = {}"
    by (simp_all add: well_formed_def)
  from card_label_chars [OF X] show "card (label_chars X) = length X" .
  from card_label_chars [OF U] show "card (label_chars U) = length U" .
  from single_char_labels [OF U(1)] show sU: "set U = (\<lambda>c. [c]) ` label_chars U" .
  show "label_chars X \<inter> label_chars U = {}"
  proof (rule ccontr)
    assume "label_chars X \<inter> label_chars U \<noteq> {}"
    then obtain c where "c \<in> label_chars X" "c \<in> label_chars U" by blast
    with single_char_labels [OF X(1)] sU have "[c] \<in> set X" "[c] \<in> set U" by auto
    with XU show False by blast
  qed
qed

lemma card_word_keys_well_formed:
  assumes "well_formed X U"
  shows "card (mset ` set ((jet X ^^ k) U)) = length U * ((length X + k - 1) choose k)"
proof -
  let ?C = "label_chars X" and ?D = "label_chars U"
  let ?MS = "multisets_of_size ?C k"
  let ?f = "\<lambda>(a, M). add_mset a M"
  from assms have X: "\<forall>x\<in>set X. length x = 1" by (simp add: well_formed_def)
  have finC: "finite ?C" and finD: "finite ?D" by (simp_all add: label_chars_def)
  have W: "set ((jet X ^^ k) U) = {[a] @ w | a w. a \<in> ?D \<and> length w = k \<and> set w \<subseteq> ?C}"
    (is "_ = ?R")
  proof -
    have "set ((jet X ^^ k) U) =
        {u @ w | u w. u \<in> (\<lambda>c. [c]) ` ?D \<and> length w = k \<and> set w \<subseteq> ?C}"
      unfolding funpow_jet_words [OF X] using well_formed_chars(4) [OF assms] by simp
    also have "\<dots> = ?R" by blast
    finally show ?thesis .
  qed
  have "mset ` set ((jet X ^^ k) U) = ?f ` (?D \<times> (mset ` {w. length w = k \<and> set w \<subseteq> ?C}))"
  proof (intro set_eqI iffI)
    fix M assume "M \<in> mset ` set ((jet X ^^ k) U)"
    then obtain a w where "M = mset ([a] @ w)" "a \<in> ?D" "length w = k" "set w \<subseteq> ?C"
      unfolding W by blast
    then have "M = ?f (a, mset w)" "(a, mset w) \<in> ?D \<times> (mset ` {w. length w = k \<and> set w \<subseteq> ?C})"
      by auto
    then show "M \<in> ?f ` (?D \<times> (mset ` {w. length w = k \<and> set w \<subseteq> ?C}))"
      by (rule image_eqI)
  next
    fix M assume "M \<in> ?f ` (?D \<times> (mset ` {w. length w = k \<and> set w \<subseteq> ?C}))"
    then obtain a w where "M = add_mset a (mset w)" "a \<in> ?D" "length w = k" "set w \<subseteq> ?C"
      by auto
    then have "M = mset ([a] @ w)" "[a] @ w \<in> set ((jet X ^^ k) U)"
      unfolding W by auto
    then show "M \<in> mset ` set ((jet X ^^ k) U)"
      by (rule image_eqI)
  qed
  then have keys: "mset ` set ((jet X ^^ k) U) = ?f ` (?D \<times> ?MS)"
    by (simp add: mset_words)
  have inj: "inj_on ?f (?D \<times> ?MS)"
  proof (rule inj_onI)
    fix p q assume p: "p \<in> ?D \<times> ?MS" and q: "q \<in> ?D \<times> ?MS" and e: "?f p = ?f q"
    obtain a M where pq: "p = (a, M)" by (cases p)
    obtain a' M' where qq: "q = (a', M')" by (cases q)
    from p q pq qq have a: "a \<in> ?D" "a' \<in> ?D" and M: "set_mset M \<subseteq> ?C" "set_mset M' \<subseteq> ?C"
      by (auto simp: multisets_of_size_def)
    from e pq qq have e': "add_mset a M = add_mset a' M'" by simp
    have "a = a'"
    proof (rule ccontr)
      assume "a \<noteq> a'"
      with e' have "a \<in># M'" by (metis insert_noteq_member)
      with M(2) a(1) well_formed_chars(1) [OF assms] show False by blast
    qed
    with e' pq qq show "p = q" by simp
  qed
  have "card (mset ` set ((jet X ^^ k) U)) = card (?D \<times> ?MS)"
    unfolding keys using inj by (rule card_image)
  also have "\<dots> = card ?D * card ?MS"
    by (rule card_cartesian_product)
  also have "\<dots> = length U * ((length X + k - 1) choose k)"
    using card_multisets_of_size [OF finC, of k] well_formed_chars(2,3) [OF assms] by simp
  finally show ?thesis .
qed

lemma funpow_jet_last_general:
  assumes "X \<noteq> []" and "U \<noteq> []"
  shows "(jet X ^^ k) U \<noteq> [] \<and> last ((jet X ^^ k) U) = last U @ concat (replicate k (last X))"
proof (induction k)
  case 0
  from assms(2) show ?case by simp
next
  case (Suc k)
  with jet_last [of "(jet X ^^ k) U" X] assms
  have "(jet X ^^ Suc k) U \<noteq> []"
    and "last ((jet X ^^ Suc k) U) = last U @ concat (replicate k (last X)) @ last X"
    by simp_all
  then show ?case
    by (simp only: concat_replicate_snoc) simp
qed

lemma last_word_key_well_formed:
  assumes "well_formed X U" and "X \<noteq> []"
    and "w \<in> set ((jet X ^^ k) U)"
    and "mset w = mset (last ((jet X ^^ k) U))"
  shows "w = last ((jet X ^^ k) U)"
proof -
  from assms(1) have X: "\<forall>x\<in>set X. length x = 1" and U: "\<forall>u\<in>set U. length u = 1"
    by (simp_all add: well_formed_def)
  from assms(3) have Une: "U \<noteq> []"
    unfolding funpow_jet_words [OF X] by auto
  from X assms(2) have "length (last X) = 1" by simp
  then obtain c where c: "last X = [c]" by (cases "last X") auto
  from U Une have "length (last U) = 1" by simp
  then obtain b where b: "last U = [b]" by (cases "last U") auto
  have cC: "c \<in> label_chars X"
    using assms(2) c unfolding label_chars_def by (metis UN_I last_in_set list.set_intros(1))
  have bD: "b \<in> label_chars U"
    using Une b unfolding label_chars_def by (metis UN_I last_in_set list.set_intros(1))
  have l: "last ((jet X ^^ k) U) = [b] @ replicate k c"
    using funpow_jet_last_general [OF assms(2) Une, of k]
    by (simp add: c b concat_replicate_single)
  from assms(3) obtain a w' where w: "w = [a] @ w'" and a: "a \<in> label_chars U"
    and len: "length w' = k" and sub: "set w' \<subseteq> label_chars X"
    unfolding funpow_jet_words [OF X] well_formed_chars(4) [OF assms(1)] by auto
  from assms(4) have e: "add_mset a (mset w') = add_mset b (mset (replicate k c))"
    by (simp add: w l)
  have "a = b"
  proof (rule ccontr)
    assume "a \<noteq> b"
    with e have "a \<in># mset (replicate k c)" by (metis insert_noteq_member)
    then have "a = c" by (auto split: if_splits)
    with a cC well_formed_chars(1) [OF assms(1)] show False by blast
  qed
  with e have "mset w' = mset (replicate k c)" by simp
  then have "set w' = set (replicate k c)"
    by (rule mset_eq_setD)
  then have "\<And>y. y \<in> set w' \<Longrightarrow> y = c"
    by (auto split: if_splits)
  with len have "w' = replicate k c"
    by (intro replicate_eqI) simp_all
  with w l \<open>a = b\<close> show ?thesis by simp
qed

lemma njet_well_formed_size:
  assumes "well_formed X U" and "X \<noteq> []"
  shows "length (njet_list X U (int k)) = length U * ((length X + k - 1) choose k)
    \<and> distinct (map mset (njet_list X U (int k)))"
proof (cases "U = []")
  case True
  then have "(jet X ^^ k) U = []"
    by (induction k) (simp_all add: jet_def)
  with True njet_list_words [OF assms(1), of "int k"] show ?thesis by simp
next
  case False
  let ?W = "(jet X ^^ k) U"
  let ?B = "butlast ?W"
  let ?J = "first_of_each ?B @ [last ?W]"
  have d: "distinct ?W"
    using well_formed_words(1) [OF assms(1)] .
  have ne: "?W \<noteq> []"
    using funpow_jet_last_general [OF assms(2) False] by simp
  have nj: "njet_list X U (int k) = ?J"
    using njet_list_words [OF assms(1), of "int k"] ne by (simp add: Let_def)
  from ne have W: "?W = ?B @ [last ?W]" by simp
  with d have "distinct (?B @ [last ?W])" by simp
  then have nl: "last ?W \<notin> set ?B" by simp
  have fresh: "mset (last ?W) \<notin> mset ` set ?B"
  proof
    assume "mset (last ?W) \<in> mset ` set ?B"
    then obtain w where w: "w \<in> set ?B" and m: "mset w = mset (last ?W)" by auto
    from w have "w \<in> set ?W" by (rule in_set_butlastD)
    from last_word_key_well_formed [OF assms this m] w nl show False by simp
  qed
  have "set ?W = insert (last ?W) (set ?B)"
    using W by (metis Un_insert_right append_Nil2 list.simps(15) set_append)
  then have "mset ` set ?W = insert (mset (last ?W)) (mset ` set ?B)"
    by simp
  then have "card (mset ` set ?W) = Suc (card (mset ` set ?B))"
    using fresh by simp
  then have len: "length ?J = length U * ((length X + k - 1) choose k)"
    using card_word_keys_well_formed [OF assms(1), of k] by (simp add: first_of_each_length)
  have "mset (last ?W) \<notin> mset ` set (first_of_each ?B)"
    using fresh by (simp add: first_of_each_keys)
  then have "distinct (map mset ?J)"
    using first_of_each_distinct_keys [of ?B] by simp
  with nj len show ?thesis by simp
qed

subsection \<open>Two total derivatives in either order\<close>









subsection \<open>The notebook's own example of \<open>totDiv\<close>\<close>

lemma fulljet_xy_u_2:
  "fulljet [''x'', ''y''] [''u''] 2 =
     Inr [''x'', ''y'', ''u'', ''ux'', ''uy'', ''uxx'', ''uxy'', ''uyy'']"
  by code_simp

lemma uJalpha_xy_u_x:
  "uJalpha (PStr ''u'') ''x'' [''x'', ''y''] [''u''] = Inr (Some ''ux'', [''u''])"
  "uJalpha (PStr ''ux'') ''x'' [''x'', ''y''] [''u''] = Inr (Some ''uxx'', [''u''])"
  "uJalpha (PStr ''uy'') ''x'' [''x'', ''y''] [''u''] = Inr (Some ''uxy'', [''u''])"
  "uJalpha (PStr ''uxx'') ''x'' [''x'', ''y''] [''u''] = Inr (Some ''uxxx'', [''u''])"
  "uJalpha (PStr ''uxy'') ''x'' [''x'', ''y''] [''u''] = Inr (Some ''uxxy'', [''u''])"
  "uJalpha (PStr ''uyy'') ''x'' [''x'', ''y''] [''u''] = Inr (Some ''uxyy'', [''u''])"
  by code_simp+

text \<open>
  C4. The call \<open>totDiv(['x','y'],['u'],'x*u*uxy',0,2)\<close> of the notebook, made against
  the cell that introduces \<open>totDiv\<close>, returns an expression algebraically equal to
  \<open>u*uxxy*x + u*uxy + ux*uxy*x\<close>, and leaves \<open>U\<close> as it was.
\<close>

theorem totDiv_example:
  "\<exists>e. totDiv [''x'', ''y''] [''u''] (Mul (Mul (Sym ''x'') (Sym ''u'')) (Sym ''uxy'')) 0 2
         = Inr (e, [''u''])
     \<and> alg_eq e (Add (Add (Mul (Mul (Sym ''u'') (Sym ''uxxy'')) (Sym ''x''))
                          (Mul (Sym ''u'') (Sym ''uxy'')))
                     (Mul (Mul (Sym ''ux'') (Sym ''uxy'')) (Sym ''x'')))"
  by (simp add: totDiv_def fulljet_xy_u_2 uJalpha_xy_u_x ebind_def py_index_def alg_eq_def
      algebra_simps)

subsection \<open>The prolongation of a translation\<close>

lemmas Prolong_unfold =
  Prolong_def diffOrd_def eval_nat_numeral upt_rec phiAlpha_def ebind_def py_index_def
  uJalpha_def njet_def jet_def njet_U_def py_sorted_def divUJi_def TotDiv_def Let_def

text \<open>
  With the binding of \<open>totDiv\<close> that the notebook would have if its last cell called
  \<open>fulljet\<close>, the two coefficients that \<open>Prolong(['x'],['u'],[1,0],2)\<close> appends are
  algebraically zero.
\<close>

lemma Prolong_translation_with_fulljet:
  "\<exists>c1 c2 h'. Prolong totDiv [''x''] [''u''] v 2 (h(v := [Num 1, Num 0])) = Inr (v, h', [''u''])
     \<and> h' v = [Num 1, Num 0, c1, c2] \<and> alg_eq c1 (Num 0) \<and> alg_eq c2 (Num 0)"
  by (simp add: Prolong_unfold totDiv_def fulljet_def Sub_def alg_eq_def)

text \<open>
  C3. For \<open>X = ['x']\<close>, \<open>U = ['u']\<close> and \<open>v = [1,0]\<close> the call \<open>Prolong(X,U,v,2)\<close> of
  the program does not produce coefficients: the first \<open>phiAlpha\<close> reaches
  \<open>totDiv\<close>, whose lookup of \<open>fullJet\<close> raises \<open>NameError\<close>.
\<close>

theorem Prolong_translation_program:
  "Prolong totDiv_program [''x''] [''u''] v 2 (h(v := [Num 1, Num 0])) = Inl NameError"
  by (simp add: Prolong_unfold totDiv_program_def)

subsection \<open>The resolver without a match\<close>

lemma find_None_unmatched:
  "(\<forall>s\<in>set J. mset s \<noteq> mset w) \<Longrightarrow> find (\<lambda>s. py_sorted w = py_sorted s) J = None"
  by (auto simp: find_None_iff py_sorted_eq_iff)

text \<open>
  C8, as the code has it. When no symbol of the jet space that \<open>uJalpha\<close> builds has the
  characters of the input symbol together with those of the label, \<open>uJalpha\<close> returns
  \<open>None\<close>; it raises nothing.
\<close>

theorem uJalpha_unmatched_None:
  assumes "njet X U (int (length (py_str u))) = Inr J"
    and "\<forall>s\<in>set J. mset s \<noteq> mset (py_str u @ x)"
  shows "uJalpha u x X U = Inr (None, njet_U U (int (length (py_str u))) J)"
  using assms by (simp add: uJalpha_def ebind_def find_None_unmatched)

lemma njet_x_u_1: "njet [''x''] [''u''] 1 = Inr [''ux'']"
  by code_simp

lemma njet_xy_u_2: "njet [''x'', ''y''] [''u''] 2 = Inr [''uxx'', ''uxy'', ''uyy'']"
  by code_simp

theorem uJalpha_unmatched_None_witness:
  "njet [''x'', ''y''] [''u''] 2 = Inr [''uxx'', ''uxy'', ''uyy'']
   \<and> mset ''uxx'' \<noteq> mset ''uxz'' \<and> mset ''uxy'' \<noteq> mset ''uxz'' \<and> mset ''uyy'' \<noteq> mset ''uxz''
   \<and> uJalpha (PSym ''ux'') ''z'' [''x'', ''y''] [''u''] = Inr (None, [''u''])"
proof -
  have a: "njet [''x'', ''y''] [''u''] (int (length (py_str (PSym ''ux'')))) =
      Inr [''uxx'', ''uxy'', ''uyy'']"
    by (simp add: njet_xy_u_2)
  have "py_sorted ''uxx'' \<noteq> py_sorted ''uxz''" "py_sorted ''uxy'' \<noteq> py_sorted ''uxz''"
    "py_sorted ''uyy'' \<noteq> py_sorted ''uxz''"
    by code_simp+
  then have b: "\<forall>s\<in>set [''uxx'', ''uxy'', ''uyy'']. mset s \<noteq> mset (py_str (PSym ''ux'') @ ''z'')"
    by (simp add: py_sorted_eq_iff)
  from uJalpha_unmatched_None [OF a b] b show ?thesis
    by (simp add: njet_U_def njet_xy_u_2)
qed

text \<open>
  The claim as the specification states it fails: in the jet space \<open>['ux']\<close> built for
  \<open>uJalpha('u','z',['x'],['u'])\<close> nothing has the characters of \<open>uz\<close>, and the call
  returns \<open>None\<close>.
\<close>

theorem uJalpha_no_LookupError:
  "njet [''x''] [''u''] 1 = Inr [''ux'']
   \<and> mset ''ux'' \<noteq> mset (''u'' @ ''z'')
   \<and> uJalpha (PStr ''u'') ''z'' [''x''] [''u''] = Inr (None, [''u''])"
proof -
  have "py_sorted ''ux'' \<noteq> py_sorted ''uz''"
    by code_simp
  then have "mset ''ux'' \<noteq> mset (''u'' @ ''z'')"
    by (simp add: py_sorted_eq_iff)
  moreover have "uJalpha (PStr ''u'') ''z'' [''x''] [''u''] = Inr (None, [''u''])"
    by code_simp
  ultimately show ?thesis
    by (simp add: njet_x_u_1)
qed

subsection \<open>The size of the order-\<open>k\<close> jet space\<close>

text \<open>
  C2. For \<open>p \<ge> 1\<close> different single-character labels of independent variables, one
  label \<open>u\<close> of a dependent variable and every order \<open>k\<close>, \<open>njet\<close> returns exactly
  \<open>C(p+k-1, k)\<close> symbols, no two of them with the same characters; for \<open>p = 2\<close> and
  \<open>k = 2\<close> these are \<open>uxx\<close>, \<open>uxy\<close> and \<open>uyy\<close>.
\<close>

theorem njet_one_label:
  assumes "X \<noteq> []" and "distinct X" and "\<forall>x\<in>set X. length x = 1"
  shows "\<exists>J. njet X [u] (int k) = Inr J \<and> length J = (length X + k - 1) choose k
           \<and> distinct (map mset J)"
proof -
  let ?W = "(jet X ^^ k) [u]"
  let ?B = "butlast ?W"
  let ?J = "first_of_each ?B @ [last ?W]"
  have d: "distinct ?W"
    using assms(2,3) by (rule funpow_jet_distinct [where m = "length u"]) simp_all
  have ne: "?W \<noteq> []"
    using funpow_jet_last [OF assms(1)] by simp
  have nj: "njet X [u] (int k) = Inr ?J"
    using njet_words [where X = X and n = "int k" and U = "[u]"] d ne by (simp add: Let_def)
  from ne have W: "?W = ?B @ [last ?W]" by simp
  with d have "distinct (?B @ [last ?W])" by simp
  then have nl: "last ?W \<notin> set ?B" by simp
  have fresh: "mset (last ?W) \<notin> mset ` set ?B"
  proof
    assume "mset (last ?W) \<in> mset ` set ?B"
    then obtain w where w: "w \<in> set ?B" and m: "mset w = mset (last ?W)" by auto
    from w have "w \<in> set ?W" by (rule in_set_butlastD)
    from last_word_key [OF assms(3,1) this m] w nl show False by simp
  qed
  have "set ?W = insert (last ?W) (set ?B)"
    using W by (metis Un_insert_right append_Nil2 list.simps(15) set_append)
  then have "mset ` set ?W = insert (mset (last ?W)) (mset ` set ?B)"
    by simp
  then have "card (mset ` set ?W) = Suc (card (mset ` set ?B))"
    using fresh by simp
  then have len: "length ?J = (length X + k - 1) choose k"
    using card_word_keys [OF assms(3,2), of k u] by (simp add: first_of_each_length)
  have "mset (last ?W) \<notin> mset ` set (first_of_each ?B)"
    using fresh by (simp add: first_of_each_keys)
  then have "distinct (map mset ?J)"
    using first_of_each_distinct_keys [of ?B] by simp
  with nj len show ?thesis by blast
qed

theorem njet_one_label_witness:
  "[''x'', ''y''] \<noteq> [] \<and> distinct [''x'', ''y''] \<and> length ''x'' = 1 \<and> length ''y'' = 1
   \<and> njet [''x'', ''y''] [''u''] 2 = Inr [''uxx'', ''uxy'', ''uyy'']
   \<and> length [''uxx'', ''uxy'', ''uyy''] = (length [''x'', ''y''] + 2 - 1) choose 2
   \<and> distinct (map mset [''uxx'', ''uxy'', ''uyy''])"
proof -
  have "\<exists>J. njet [''x'', ''y''] [''u''] (int 2) = Inr J
          \<and> length J = (length [''x'', ''y''] + 2 - 1) choose 2 \<and> distinct (map mset J)"
    by (rule njet_one_label) simp_all
  then show ?thesis
    by (auto simp: njet_xy_u_2)
qed

subsection \<open>The order of composition and the order ceiling\<close>

lemma fulljet_x_u_3: "fulljet [''x''] [''u''] 3 = Inr [''x'', ''u'', ''ux'', ''uxx'', ''uxxx'']"
  by code_simp

lemma fulljet_x_u_2: "fulljet [''x''] [''u''] 2 = Inr [''x'', ''u'', ''ux'', ''uxx'']"
  by code_simp

lemma uJalpha_x_u:
  "uJalpha (PStr ''u'') ''x'' [''x''] [''u''] = Inr (Some ''ux'', [''u''])"
  "uJalpha (PStr ''ux'') ''x'' [''x''] [''u''] = Inr (Some ''uxx'', [''u''])"
  "uJalpha (PStr ''uxx'') ''x'' [''x''] [''u''] = Inr (Some ''uxxx'', [''u''])"
  "uJalpha (PStr ''uxxx'') ''x'' [''x''] [''u''] = Inr (Some ''uxxxx'', [''u''])"
  by code_simp+

lemma divUJi_x_u_00:
  "divUJi [''x''] [''u''] (PStr ''u'') [0, 0] 0 = Inr (Some ''uxxx'', [''u''])"
  by code_simp

text \<open>
  The ceiling is not \<open>len(J)+1\<close> in every composition. For \<open>J = [0,0]\<close> and \<open>P = uxx\<close>
  the \<open>TotDiv\<close> of the cell that introduces it, which passes the ceiling 3, returns
  an expression of value 1 where every symbol is 1; the last cell's \<open>TotDiv\<close> with the
  ceiling that \<open>phiAlpha\<close> passes, \<open>len(J) = 2\<close>, returns one of value 0. A binding of
  \<open>totDiv\<close> that returns the ceiling it is given receives 2 through \<open>phiAlpha\<close> and 3
  through the cell's \<open>TotDiv\<close>.
\<close>

theorem TotDiv_ceiling_differs:
  "(\<exists>e. TotDiv_cell totDiv [''x''] [''u''] (Sym ''uxx'') [0, 0] = Inr (e, [''u''])
        \<and> eval (\<lambda>s. 1) e = 1)
   \<and> (\<exists>e. TotDiv totDiv [''x''] [''u''] (Sym ''uxx'') (int (length [0, 0 :: int])) [0, 0]
              = Inr (e, [''u''])
        \<and> eval (\<lambda>s. 1) e = 0)
   \<and> (\<exists>b. phiAlpha (\<lambda>X U P i n. Inr (Num n, U)) [''x''] [''u''] [Num 1, Num 0] [0, 0] 0
              = Inr (Add (Num 2) b, [''u'']))
   \<and> TotDiv_cell (\<lambda>X U P i n. Inr (Num n, U)) [''x''] [''u''] (Sym ''u'') [0, 0]
        = Inr (Num 3, [''u''])"
  by (simp add: TotDiv_cell_def TotDiv_def totDiv_def fulljet_x_u_3 fulljet_x_u_2 uJalpha_x_u
      divUJi_x_u_00 py_index_def phiAlpha_def Let_def Sub_def
      eval_nat_numeral)

text \<open>
  C6, as the code has it. For a non-empty multi-index \<open>J\<close>, both definitions of
  \<open>TotDiv\<close> apply the single total derivative from left to right in the order \<open>J\<close> is
  given. The ceiling handed to every one of these calls is \<open>len(J)+1\<close> in the \<open>TotDiv\<close>
  of the cell that introduces it, and the argument \<open>n\<close> of the caller in the \<open>TotDiv\<close>
  of the last cell. \<open>phiAlpha\<close> calls the latter with \<open>len(J)\<close>, so the composition inside
  a prolongation coefficient runs with the ceiling \<open>len(J)\<close>.
\<close>

theorem TotDiv_left_to_right:
  assumes "J \<noteq> []"
  shows "TotDiv_cell td X U P J = compose_left td X (int (length J) + 1) J (P, U)
    \<and> TotDiv td X U P n J = compose_left td X n J (P, U)
    \<and> phiAlpha td X U v J q =
        ebind (phiAlpha_a X U (take (length X) v) q [0 ..< length X] (Num 0)) (\<lambda>(a, U1).
        ebind (phiAlpha_b X U1 (take (length X) v) J q [0 ..< length X] (Num 0)) (\<lambda>(b, U2).
        ebind (py_index (drop (length X) v) q) (\<lambda>f.
        ebind (compose_left td X (int (length J)) J (Sub f a, U2)) (\<lambda>(d, U3).
          Inr (Add d b, U3)))))"
proof -
  have "TotDiv_cell td X U P J = TotDiv td X U P (int (length J) + 1) J"
    by (simp add: TotDiv_cell_def TotDiv_def)
  then show ?thesis
    by (simp add: TotDiv_compose [OF assms] phiAlpha_def Let_def)
qed

theorem TotDiv_left_to_right_witness:
  "[0, 0 :: int] \<noteq> []
   \<and> TotDiv_cell totDiv [''x''] [''u''] (Sym ''u'') [0, 0]
       = compose_left totDiv [''x''] 3 [0, 0] (Sym ''u'', [''u''])
   \<and> (\<exists>e. TotDiv_cell totDiv [''x''] [''u''] (Sym ''u'') [0, 0] = Inr (e, [''u''])
         \<and> alg_eq e (Sym ''uxx''))
   \<and> TotDiv totDiv [''x''] [''u''] (Sym ''u'') 2 [0, 0]
       = compose_left totDiv [''x''] 2 [0, 0] (Sym ''u'', [''u''])
   \<and> (\<exists>e. TotDiv totDiv [''x''] [''u''] (Sym ''u'') 2 [0, 0] = Inr (e, [''u''])
         \<and> alg_eq e (Sym ''uxx''))
   \<and> (\<exists>d. compose_left totDiv [''x''] (int (length [0, 0 :: int])) [0, 0]
              (Sub (Num 0) (Add (Num 0) (Mul (Num 1) (Sym ''ux''))), [''u'']) = Inr (d, [''u''])
         \<and> phiAlpha totDiv [''x''] [''u''] [Num 1, Num 0] [0, 0] 0
              = Inr (Add d (Add (Num 0) (Mul (Num 1) (Sym ''uxxx''))), [''u''])
         \<and> alg_eq (Add d (Add (Num 0) (Mul (Num 1) (Sym ''uxxx'')))) (Num 0))"
proof -
  have c3: "\<exists>e. compose_left totDiv [''x''] 3 [0, 0] (Sym ''u'', [''u'']) = Inr (e, [''u''])
         \<and> alg_eq e (Sym ''uxx'')"
    by (simp add: totDiv_def fulljet_x_u_3 uJalpha_x_u py_index_def alg_eq_def)
  have c2: "\<exists>e. compose_left totDiv [''x''] 2 [0, 0] (Sym ''u'', [''u'']) = Inr (e, [''u''])
         \<and> alg_eq e (Sym ''uxx'')"
    by (simp add: totDiv_def fulljet_x_u_2 uJalpha_x_u py_index_def alg_eq_def)
  have d: "\<exists>d. compose_left totDiv [''x''] 2 [0, 0]
              (Sub (Num 0) (Add (Num 0) (Mul (Num 1) (Sym ''ux''))), [''u'']) = Inr (d, [''u''])
         \<and> alg_eq (Add d (Add (Num 0) (Mul (Num 1) (Sym ''uxxx'')))) (Num 0)"
    by (simp add: totDiv_def fulljet_x_u_2 uJalpha_x_u py_index_def alg_eq_def Sub_def)
  have a: "phiAlpha_a [''x''] [''u''] [Num 1] 0 [0] (Num 0)
      = Inr (Add (Num 0) (Mul (Num 1) (Sym ''ux'')), [''u''])"
    by (simp add: uJalpha_x_u py_index_def)
  have b: "phiAlpha_b [''x''] [''u''] [Num 1] [0, 0] 0 [0] (Num 0)
      = Inr (Add (Num 0) (Mul (Num 1) (Sym ''uxxx'')), [''u''])"
    by (simp add: divUJi_x_u_00 py_index_def)
  from d obtain d' where
    d1: "compose_left totDiv [''x''] 2 [0, 0]
           (Sub (Num 0) (Add (Num 0) (Mul (Num 1) (Sym ''ux''))), [''u'']) = Inr (d', [''u''])"
    and d2: "alg_eq (Add d' (Add (Num 0) (Mul (Num 1) (Sym ''uxxx'')))) (Num 0)"
    by blast
  have t: "take (length [''x'']) [Num 1, Num 0] = [Num 1]"
    "drop (length [''x'']) [Num 1, Num 0] = [Num 0]"
    "[0 ..< length [''x'']] = [0]" "int (length [0, 0 :: int]) = 2"
    "py_index [Num 0] 0 = Inr (Num 0)"
    by (simp_all add: py_index_def)
  have T: "[0, 0 :: int] \<noteq> []" by simp
  note inst = TotDiv_left_to_right [OF T, of totDiv "[''x'']" "[''u'']" "Sym ''u''" 2
      "[Num 1, Num 0]" 0]
  from inst have "phiAlpha totDiv [''x''] [''u''] [Num 1, Num 0] [0, 0] 0
      = Inr (Add d' (Add (Num 0) (Mul (Num 1) (Sym ''uxxx''))), [''u''])"
    by (simp only: t a b d1 ebind_Inr prod.case)
  with d1 d2 c3 c2 inst show ?thesis
    by (simp only: t) simp
qed

subsection \<open>Commuting total derivatives\<close>






subsection \<open>The range of the chain-rule sum\<close>





subsection \<open>The order that \<open>uJalpha\<close> searches\<close>

text \<open>
  C10. A symbol that \<open>uJalpha\<close> returns is taken from the jet space of the order
  \<open>len(str(u))\<close>. When every label is a single character a symbol of order \<open>k\<close> has
  \<open>k + 1\<close> characters, so that order is \<open>k + 1\<close>, the order of the derivative looked
  for. With a label of two characters it is not: for \<open>X = ['x']\<close>, \<open>U = ['uu']\<close> the
  call \<open>uJalpha('uu','x',X,U)\<close> searches the order-2 jet space and returns \<open>None\<close>,
  although the order-1 jet space holds \<open>uux\<close>, which has the characters asked for.
\<close>

theorem uJalpha_order_from_text_length:
  "(uJalpha u x X U = Inr (Some t, U') \<longrightarrow> njet X U (int (length (py_str u))) = Inr J \<longrightarrow>
      t \<in> set J)
   \<and> ((\<forall>l\<in>set (X @ U). length l = 1) \<longrightarrow> njet X U (int k) = Inr J' \<longrightarrow> s \<in> set J' \<longrightarrow>
      int (length (py_str (PStr s))) = int k + 1)
   \<and> uJalpha (PStr ''uu'') ''x'' [''x''] [''uu''] = Inr (None, [''uu''])
   \<and> njet [''x''] [''uu''] 2 = Inr [''uuxx'']
   \<and> njet [''x''] [''uu''] 1 = Inr [''uux'']
   \<and> mset ''uux'' = mset (''uu'' @ ''x'')"
proof -
  have "uJalpha (PStr ''uu'') ''x'' [''x''] [''uu''] = Inr (None, [''uu''])"
    "njet [''x''] [''uu''] 2 = Inr [''uuxx'']"
    "njet [''x''] [''uu''] 1 = Inr [''uux'']"
    by code_simp+
  then show ?thesis
    using uJalpha_result_in_njet [of u x X U t U' J] njet_lengths [of X U "int k" J' s]
    by simp
qed

theorem uJalpha_order_from_text_length_witness:
  "uJalpha (PStr ''uy'') ''x'' [''x'', ''y''] [''u''] = Inr (Some ''uxy'', [''u''])
   \<and> njet [''x'', ''y''] [''u''] (int (length (py_str (PStr ''uy'')))) = Inr [''uxx'', ''uxy'', ''uyy'']
   \<and> ''uxy'' \<in> set [''uxx'', ''uxy'', ''uyy'']
   \<and> length ''x'' = 1 \<and> length ''y'' = 1 \<and> length ''u'' = 1
   \<and> njet [''x'', ''y''] [''u''] (int 1) = Inr [''ux'', ''uy'']
   \<and> ''uy'' \<in> set [''ux'', ''uy'']
   \<and> int (length (py_str (PStr ''uy''))) = int 1 + 1"
proof -
  have a: "uJalpha (PStr ''uy'') ''x'' [''x'', ''y''] [''u''] = Inr (Some ''uxy'', [''u''])"
    by code_simp
  have b: "njet [''x'', ''y''] [''u''] (int (length (py_str (PStr ''uy'')))) =
      Inr [''uxx'', ''uxy'', ''uyy'']"
    by (simp add: njet_xy_u_2)
  have c: "njet [''x'', ''y''] [''u''] (int 1) = Inr [''ux'', ''uy'']"
    by code_simp
  from uJalpha_order_from_text_length
    [of "PStr ''uy''" "''x''" "[''x'', ''y'']" "[''u'']" "''uxy''" "[''u'']"
      "[''uxx'', ''uxy'', ''uyy'']" 1 "[''ux'', ''uy'']" "''uy''"]
    a b c
  show ?thesis by simp
qed

subsection \<open>\<open>Prolong\<close> in the program of the last cell\<close>

text \<open>
  Every call of the last cell's \<open>totDiv\<close> raises, so no \<open>phiAlpha\<close> returns and
  \<open>Prolong\<close> returns only when its loops have nothing to do.
\<close>

lemma totDiv_program_raises: "totDiv_program X U P i n \<noteq> Inr r"
  by (simp add: totDiv_program_def ebind_Inr_iff)

lemma TotDiv_program_raises: "TotDiv totDiv_program X U P n J \<noteq> Inr r"
  by (simp add: TotDiv_def ebind_Inr_iff totDiv_program_raises)

lemma phiAlpha_program_raises: "phiAlpha totDiv_program X U v J q \<noteq> Inr r"
  by (simp add: phiAlpha_def Let_def ebind_Inr_iff TotDiv_program_raises)

lemma Prolong_q_program:
  "Prolong_q totDiv_program X v a J i j qs (h, U) = Inr (h', U') \<Longrightarrow> h' = h \<and> U' = U"
  by (cases qs) (simp_all add: ebind_Inr_iff phiAlpha_program_raises)

lemma Prolong_j_program:
  "Prolong_j totDiv_program X v a J i js (h, U) = Inr (h', U') \<Longrightarrow> h' = h \<and> U' = U"
proof (induction js)
  case Nil
  then show ?case by simp
next
  case (Cons j js)
  from Cons.prems obtain h1 U1 where
    q: "Prolong_q totDiv_program X v a J i j [0 ..< length U] (h, U) = Inr (h1, U1)"
    and l: "Prolong_j totDiv_program X v a J i js (h1, U1) = Inr (h', U')"
    by (auto simp: ebind_Inr_iff)
  from Prolong_q_program [OF q] have "h1 = h" "U1 = U" by simp_all
  with l Cons.IH show ?case by simp
qed

lemma Prolong_i_program:
  "Prolong_i totDiv_program X v a J is (h, U) = Inr (h', U') \<Longrightarrow> h' = h \<and> U' = U"
proof (induction "is")
  case Nil
  then show ?case by simp
next
  case (Cons i "is")
  from Cons.prems obtain h1 U1 where
    q: "Prolong_j totDiv_program X v a J i [0 ..< length X] (h, U) = Inr (h1, U1)"
    and l: "Prolong_i totDiv_program X v a J is (h1, U1) = Inr (h', U')"
    by (auto simp: ebind_Inr_iff)
  from Prolong_j_program [OF q] have "h1 = h" "U1 = U" by simp_all
  with l Cons.IH show ?case by simp
qed

lemma Prolong_program_no_coefficient:
  "Prolong totDiv_program X U v n h = Inr (r, h', U') \<Longrightarrow> r = v \<and> h' = h \<and> U' = U"
  by (auto simp: Prolong_def Let_def ebind_Inr_iff dest: Prolong_i_program)

subsection \<open>\<open>Prolong\<close> and the caller's list\<close>





subsection \<open>The number of coefficients\<close>

text \<open>
  C1. At \<open>X = ['x','y']\<close>, \<open>U = ['u']\<close>, \<open>v = [1,0,0]\<close> and \<open>n = 2\<close> the claim asks
  for \<open>3 + 2 + 3 = 8\<close> components. The program of the last cell raises \<open>NameError\<close>.
  With \<open>totDiv\<close> bound to the cell that calls \<open>fulljet\<close> the list has \<open>7\<close>
  components: the loop over \<open>j\<close> runs over \<open>range(len(X))\<close>, so the third multi-index of
  order 2, \<open>(1,1)\<close>, is never used.
\<close>

theorem Prolong_order_2_two_variables:
  "Prolong totDiv_program [''x'', ''y''] [''u''] v 2 (h(v := [Num 1, Num 0, Num 0])) = Inl NameError
   \<and> (\<exists>h'. Prolong totDiv [''x'', ''y''] [''u''] v 2 (h(v := [Num 1, Num 0, Num 0]))
              = Inr (v, h', [''u'']) \<and> length (h' v) = 7)"
  by (simp add: Prolong_unfold totDiv_def totDiv_program_def fulljet_def Sub_def)

end
